theory Spec2Isabelle
  imports Main
begin

section \<open>Python helpers\<close>

text \<open>
  Strings are \<^typ>\<open>string\<close>, one \<^typ>\<open>char\<close> for each code point; \<open>len\<close> is
  \<^const>\<open>length\<close>, read as a Python \<open>int\<close>.  \<open>sep.join(parts)\<close> is
  \<open>join sep parts\<close>.
\<close>

abbreviation len :: "'a list \<Rightarrow> int" where
  "len xs \<equiv> int (length xs)"

fun join :: "string \<Rightarrow> string list \<Rightarrow> string" where
  "join sep [] = []"
| "join sep [x] = x"
| "join sep (x # y # ys) = x @ sep @ join sep (y # ys)"

section \<open>Paginator (paginators.py)\<close>

text \<open>
  The class \<open>Paginator\<close>: the four configuration attributes and the three private
  attributes \<open>_current_page\<close>, \<open>_count\<close>, \<open>_pages\<close> (written \<open>priv_\<close> here).
  \<open>prefix\<close> and \<open>suffix\<close> may be \<open>None\<close>.
\<close>

record paginator =
  prefix :: "string option"
  suffix :: "string option"
  max_size :: int
  linesep :: string
  priv_current_page :: "string list"
  priv_count :: int
  priv_pages :: "string list"

datatype error =
    LineExceeds int
  | WrapImpossible int int int "string list"
  | PageSizeTooLarge int int
  | IndexError
  | AssertionError

definition prefix_len :: "'a paginator_scheme \<Rightarrow> int" where
  "prefix_len p = (case prefix p of None \<Rightarrow> 0 | Some s \<Rightarrow> if s = [] then 0 else len s)"

definition suffix_len :: "'a paginator_scheme \<Rightarrow> int" where
  "suffix_len p = (case suffix p of None \<Rightarrow> 0 | Some s \<Rightarrow> if s = [] then 0 else len s)"

definition linesep_len :: "'a paginator_scheme \<Rightarrow> int" where
  "linesep_len p = len (linesep p)"

definition clear :: "'a paginator_scheme \<Rightarrow> 'a paginator_scheme" where
  "clear p =
     (case prefix p of
        Some s \<Rightarrow> p\<lparr>priv_current_page := [s], priv_count := len s + linesep_len p, priv_pages := []\<rparr>
      | None \<Rightarrow> p\<lparr>priv_current_page := [], priv_count := 0, priv_pages := []\<rparr>)"

definition Paginator :: "string option \<Rightarrow> string option \<Rightarrow> int \<Rightarrow> string \<Rightarrow> paginator" where
  "Paginator pre suf ms sep =
     clear \<lparr>prefix = pre, suffix = suf, max_size = ms, linesep = sep,
            priv_current_page = [], priv_count = 0, priv_pages = []\<rparr>"

definition close_page :: "'a paginator_scheme \<Rightarrow> 'a paginator_scheme" where
  "close_page p =
     (let cur = (case suffix p of Some s \<Rightarrow> priv_current_page p @ [s] | None \<Rightarrow> priv_current_page p);
          p1 = p\<lparr>priv_pages := priv_pages p @ [join (linesep p) cur]\<rparr>
      in case prefix p of
           Some s \<Rightarrow> p1\<lparr>priv_current_page := [s], priv_count := len s + linesep_len p\<rparr>
         | None \<Rightarrow> p1\<lparr>priv_current_page := [], priv_count := 0\<rparr>)"

definition max_page_size :: "'a paginator_scheme \<Rightarrow> int" where
  "max_page_size p = max_size p - prefix_len p - suffix_len p - 2 * linesep_len p"

definition add_line :: "'a paginator_scheme \<Rightarrow> string \<Rightarrow> bool \<Rightarrow> error + 'a paginator_scheme" where
  "add_line p line emp =
     (if len line > max_page_size p then Inl (LineExceeds (max_page_size p))
      else
        let p1 = (if priv_count p + len line + linesep_len p > max_size p - suffix_len p
                  then close_page p else p);
            p2 = p1\<lparr>priv_count := priv_count p1 + len line + linesep_len p1,
                    priv_current_page := priv_current_page p1 @ [line]\<rparr>
        in Inr (if emp
                then p2\<lparr>priv_current_page := priv_current_page p2 @ [''''],
                        priv_count := priv_count p2 + linesep_len p2\<rparr>
                else p2))"

definition paginator_len :: "'a paginator_scheme \<Rightarrow> int" where
  "paginator_len p = (\<Sum>q\<leftarrow>priv_pages p. len q) + priv_count p"

definition pages :: "'a paginator_scheme \<Rightarrow> string list \<times> 'a paginator_scheme" where
  "pages p =
     (let p1 = (if len (priv_current_page p) > (if prefix p = None then 0 else 1)
                then close_page p else p)
      in (priv_pages p1, p1))"

section \<open>WrappedPaginator (paginators.py)\<close>

text \<open>
  Python slices \<open>s[:k]\<close> and \<open>s[k:]\<close>: a negative bound counts from the end and is
  cut off at the start of the string.  \<open>s.rfind(d)\<close> is the highest index at which
  \<open>d\<close> occurs in \<open>s\<close>, or \<open>-1\<close>; the empty string occurs at \<open>len(s)\<close>.
\<close>

definition slice_to :: "string \<Rightarrow> int \<Rightarrow> string" where
  "slice_to s k = (if k \<ge> 0 then take (nat k) s else take (nat (len s + k)) s)"

definition slice_from :: "string \<Rightarrow> int \<Rightarrow> string" where
  "slice_from s k = (if k \<ge> 0 then drop (nat k) s else drop (nat (len s + k)) s)"

fun rfind_at :: "string \<Rightarrow> string \<Rightarrow> nat \<Rightarrow> int" where
  "rfind_at s d 0 = (if take (length d) s = d then 0 else -1)"
| "rfind_at s d (Suc i) =
     (if take (length d) (drop (Suc i) s) = d then int (Suc i) else rfind_at s d i)"

definition rfind :: "string \<Rightarrow> string \<Rightarrow> int" where
  "rfind s d = (if length d > length s then -1 else rfind_at s d (length s - length d))"

record wrapped_paginator = paginator +
  wrap_on :: "string list"
  include_wrapped :: bool
  force_wrap :: bool

definition WrappedPaginator ::
  "string option \<Rightarrow> string option \<Rightarrow> int \<Rightarrow> string \<Rightarrow> string list \<Rightarrow> bool \<Rightarrow> bool \<Rightarrow> wrapped_paginator"
where
  "WrappedPaginator pre suf ms sep won incl force =
     clear \<lparr>prefix = pre, suffix = suf, max_size = ms, linesep = sep,
            priv_current_page = [], priv_count = 0, priv_pages = [],
            wrap_on = won, include_wrapped = incl, force_wrap = force\<rparr>"

definition true_max_size :: "'a paginator_scheme \<Rightarrow> int" where
  "true_max_size p = max_size p - prefix_len p - suffix_len p - 2"

text \<open>
  The \<open>for delimiter in self.wrap_on\<close> loop: the first delimiter whose rightmost
  occurrence in the search string is at a position greater than 0.
\<close>

fun find_delimiter :: "string \<Rightarrow> string list \<Rightarrow> (int \<times> string) option" where
  "find_delimiter search_string [] = None"
| "find_delimiter search_string (delimiter # ds) =
     (let position = rfind search_string delimiter
      in if position > 0 then Some (position, delimiter)
         else find_delimiter search_string ds)"

text \<open>
  The \<open>while len(line) > true_max_size\<close> loop of \<open>WrappedPaginator.add_line\<close>.  The
  loop need not end, so it carries fuel: the number of passes through the loop body it
  may still make.  \<open>None\<close> means the fuel ran out before the loop was left.
\<close>

fun wrapped_loop ::
  "nat \<Rightarrow> wrapped_paginator \<Rightarrow> int \<Rightarrow> string \<Rightarrow> bool \<Rightarrow> (error + wrapped_paginator) option"
where
  "wrapped_loop 0 p original_length line emp =
     (if len line > true_max_size p then None else Some (add_line p line emp))"
| "wrapped_loop (Suc n) p original_length line emp =
     (if len line > true_max_size p then
        (let search_string = slice_to line (true_max_size p - 1)
         in case find_delimiter search_string (wrap_on p) of
              Some (position, delimiter) \<Rightarrow>
                (case add_line p (slice_to line position) emp of
                   Inl e \<Rightarrow> Some (Inl e)
                 | Inr p' \<Rightarrow>
                     wrapped_loop n p' original_length
                       (if include_wrapped p then slice_from line position
                        else slice_from line (position + len delimiter)) emp)
            | None \<Rightarrow>
                if \<not> force_wrap p
                then Some (Inl (WrapImpossible original_length (len line) (true_max_size p) (wrap_on p)))
                else (case add_line p (slice_to line (true_max_size p - 1)) False of
                        Inl e \<Rightarrow> Some (Inl e)
                      | Inr p' \<Rightarrow>
                          wrapped_loop n p' original_length
                            (slice_from line (true_max_size p - 1)) emp))
      else Some (add_line p line emp))"

definition wrapped_add_line ::
  "nat \<Rightarrow> wrapped_paginator \<Rightarrow> string \<Rightarrow> bool \<Rightarrow> (error + wrapped_paginator) option"
where
  "wrapped_add_line fuel p line emp = wrapped_loop fuel p (len line) line emp"

section \<open>PaginatorInterface (paginators.py)\<close>

text \<open>
  \<open>str(n)\<close> for the page numbers, and the footer \<open>f"\nPage {n}/{m}"\<close>.
\<close>

definition newline :: string where
  "newline = [CHR 0x0A]"

fun str_nat :: "nat \<Rightarrow> string" where
  "str_nat n = (if n < 10 then [''0123456789'' ! n]
                else str_nat (n div 10) @ [''0123456789'' ! (n mod 10)])"

definition str_int :: "int \<Rightarrow> string" where
  "str_int k = (if k < 0 then CHR ''-'' # str_nat (nat (- k)) else str_nat (nat k))"

definition footer :: "int \<Rightarrow> int \<Rightarrow> string" where
  "footer n m = newline @ ''Page '' @ str_int n @ ''/'' @ str_int m"

text \<open>
  The interface's attributes that the properties below read: \<open>_display_page\<close>, the
  paginator, the message (its identity, once sent), the owner, the timeout and the two
  flags.  The bot, the emoji set, the task and the lock are framework objects.
\<close>

record 'a paginator_interface =
  priv_display_page :: int
  paginator :: "'a paginator_scheme"
  message :: "nat option"
  owner :: "nat option"
  timeout :: int
  delete_message :: bool
  sent_page_reactions :: bool

definition interface_pages :: "'a paginator_interface \<Rightarrow> string list" where
  "interface_pages self =
     (let paginator_pages = priv_pages (paginator self)
      in if len (priv_current_page (paginator self)) > 1
         then paginator_pages @
                [join newline (priv_current_page (paginator self)) @ newline @
                 (case suffix (paginator self) of None \<Rightarrow> [] | Some s \<Rightarrow> s)]
         else paginator_pages)"

definition page_count :: "'a paginator_interface \<Rightarrow> int" where
  "page_count self = len (interface_pages self)"

definition display_page :: "'a paginator_interface \<Rightarrow> int \<times> 'a paginator_interface" where
  "display_page self =
     (let v = max 0 (min (page_count self - 1) (priv_display_page self))
      in (v, self\<lparr>priv_display_page := v\<rparr>))"

definition set_display_page :: "'a paginator_interface \<Rightarrow> int \<Rightarrow> 'a paginator_interface" where
  "set_display_page self v = self\<lparr>priv_display_page := max 0 (min (page_count self - 1) v)\<rparr>"

definition interface_max_page_size :: int where
  "interface_max_page_size = 2000"

definition page_size :: "'a paginator_interface \<Rightarrow> int" where
  "page_size self = max_size (paginator self) + len (footer (page_count self) (page_count self))"

text \<open>
  \<open>__init__\<close>: the attribute assignments (\<open>new_interface\<close>), then the check of the
  page size.  The paginator argument is a \<open>Paginator\<close> by its type.
\<close>

definition new_interface ::
  "'a paginator_scheme \<Rightarrow> nat option \<Rightarrow> int \<Rightarrow> bool \<Rightarrow> 'a paginator_interface"
where
  "new_interface pg own tmo del =
     \<lparr>priv_display_page = 0, paginator = pg, message = None, owner = own,
      timeout = tmo, delete_message = del, sent_page_reactions = False\<rparr>"

definition PaginatorInterface ::
  "'a paginator_scheme \<Rightarrow> nat option \<Rightarrow> int \<Rightarrow> bool \<Rightarrow> error + 'a paginator_interface"
where
  "PaginatorInterface pg own tmo del =
     (let self = new_interface pg own tmo del
      in if page_size self > interface_max_page_size
         then Inl (PageSizeTooLarge (page_size self) interface_max_page_size)
         else Inr self)"

text \<open>Python list indexing \<open>xs[i]\<close>: negative indices count from the end.\<close>

definition py_index :: "'b list \<Rightarrow> int \<Rightarrow> error + 'b" where
  "py_index xs i =
     (let j = (if i < 0 then len xs + i else i)
      in if 0 \<le> j \<and> j < len xs then Inr (xs ! nat j) else Inl IndexError)"

definition send_kwargs :: "'a paginator_interface \<Rightarrow> (error + string) \<times> 'a paginator_interface" where
  "send_kwargs self =
     (let (dp, self1) = display_page self;
          page_num = footer (dp + 1) (page_count self1)
      in case py_index (interface_pages self1) dp of
           Inl e \<Rightarrow> (Inl e, self1)
         | Inr content \<Rightarrow> (Inr (content @ page_num), self1))"

section \<open>wrap_code (python/compilation.py)\<close>

text \<open>
  The syntax trees \<open>wrap_code\<close> works on.  It tells apart expression statements
  (\<open>ast.Expr\<close>) from all other statements and yields (\<open>ast.Yield\<close>) from all other
  expressions, and it walks through \<open>ast.Module\<close>, \<open>ast.AsyncFunctionDef\<close> and
  \<open>ast.Try\<close>; every other node is kept as its source text.  A handler of a \<open>try\<close> is
  its exception type and its body.  Source locations are left out.
\<close>

datatype expr = Yield "expr option" | OtherExpr string

datatype stmt =
    Expr expr
  | Pass
  | Try "stmt list" "(string \<times> stmt list) list" "stmt list" "stmt list"
  | AsyncFunctionDef string string "stmt list"
  | OtherStmt string

datatype module = Module "stmt list"

text \<open>
  The parsed template \<open>CORO_CODE.format(args)\<close>.  The name that the import-expression
  library gives its importer is a parameter.
\<close>

definition CORO_CODE :: "string \<Rightarrow> string \<Rightarrow> module" where
  "CORO_CODE importer args =
     Module [AsyncFunctionDef ''_repl_coroutine'' args
       [OtherStmt ''import asyncio'',
        OtherStmt (''from importlib import import_module as '' @ importer),
        OtherStmt ''import aiohttp'',
        OtherStmt ''import interactions'',
        Try [OtherStmt ''import jishaku'']
            [(''ImportError'', [OtherStmt ''jishaku = None''])] [] [],
        Try [Pass] [] []
            [Expr (OtherExpr ''_async_executor.scope.globals.update(locals())'')]]]"

text \<open>
  \<open>KeywordTransformer().generic_visit(try_block)\<close>: the transformer class lives in
  \<open>walkers.py\<close>; what it returns for a statement (a list of statements replacing it) is
  the parameter \<open>visit\<close>.  \<open>generic_visit\<close> replaces every statement of a statement
  list by what \<open>visit\<close> returns for it.
\<close>

definition generic_visit_stmts :: "(stmt \<Rightarrow> stmt list) \<Rightarrow> stmt list \<Rightarrow> stmt list" where
  "generic_visit_stmts visit ss = concat (map visit ss)"

text \<open>
  \<open>wrap_code\<close>, from the parsed user code on.  \<open>xs[-1]\<close> raises on an empty list and
  the two \<open>assert\<close>s raise on another kind of node.
\<close>

definition wrap_code ::
  "(stmt \<Rightarrow> stmt list) \<Rightarrow> string \<Rightarrow> stmt list \<Rightarrow> string \<Rightarrow> error + module"
where
  "wrap_code visit importer user_code args =
     (case CORO_CODE importer args of Module mod_body \<Rightarrow>
        (if mod_body = [] then Inl IndexError else
          (case last mod_body of
             AsyncFunctionDef name fargs def_body \<Rightarrow>
               (if def_body = [] then Inl IndexError else
                 (case last def_body of
                    Try body handlers orelse finalbody \<Rightarrow>
                      (let body1 = body @ user_code;
                           body2 = generic_visit_stmts visit body1;
                           handlers2 = map (\<lambda>(t, b). (t, generic_visit_stmts visit b)) handlers;
                           orelse2 = generic_visit_stmts visit orelse;
                           finalbody2 = generic_visit_stmts visit finalbody;
                           rebuild = (\<lambda>b. Module (butlast mod_body @
                                        [AsyncFunctionDef name fargs
                                           (butlast def_body @ [Try b handlers2 orelse2 finalbody2])]))
                       in if body2 = [] then Inl IndexError else
                          (case last body2 of
                             Expr v \<Rightarrow>
                               (case v of
                                  Yield y \<Rightarrow> Inr (rebuild body2)
                                | _ \<Rightarrow> Inr (rebuild (butlast body2 @ [Expr (Yield (Some v))])))
                           | _ \<Rightarrow> Inr (rebuild body2)))
                  | _ \<Rightarrow> Inl AssertionError))
           | _ \<Rightarrow> Inl AssertionError)))"

section \<open>PaginatorInterface over a store of list objects\<close>

text \<open>
  \<open>PaginatorInterface.pages\<close> copies the paginator's list of pages and appends to the
  copy.  To tell a copy from an alias, lists are objects in a store here: a paginator
  object holds the addresses of its \<open>_pages\<close> and \<open>_current_page\<close> lists.
  \<open>list(xs)\<close> is \<open>new_list\<close>, \<open>xs.append(x)\<close> is \<open>list_append\<close>; addresses below
  \<open>limit\<close> are in use.
\<close>

type_synonym addr = nat

record paginator_obj =
  obj_prefix :: "string option"
  obj_suffix :: "string option"
  obj_max_size :: int
  obj_linesep :: string
  obj_current_page :: addr
  obj_count :: int
  obj_pages :: addr

record store =
  list_objs :: "addr \<Rightarrow> string list"
  paginator_objs :: "addr \<Rightarrow> paginator_obj"
  limit :: addr

record interface_obj =
  obj_display_page :: int
  obj_paginator :: addr

definition new_list :: "string list \<Rightarrow> store \<Rightarrow> addr \<times> store" where
  "new_list xs st =
     (limit st, st\<lparr>list_objs := (list_objs st)(limit st := xs), limit := Suc (limit st)\<rparr>)"

definition list_append :: "addr \<Rightarrow> string \<Rightarrow> store \<Rightarrow> store" where
  "list_append a x st = st\<lparr>list_objs := (list_objs st)(a := list_objs st a @ [x])\<rparr>"

text \<open>
  The properties \<open>pages\<close>, \<open>page_count\<close>, \<open>display_page\<close> and \<open>send_kwargs\<close> of the
  interface, on the store.  \<open>pages\<close> returns the address of the list it built.
\<close>

definition store_pages :: "interface_obj \<Rightarrow> store \<Rightarrow> addr \<times> store" where
  "store_pages self st =
     (let pg = paginator_objs st (obj_paginator self);
          (paginator_pages, st1) = new_list (list_objs st (obj_pages pg)) st
      in if len (list_objs st1 (obj_current_page pg)) > 1
         then (paginator_pages,
               list_append paginator_pages
                 (join newline (list_objs st1 (obj_current_page pg)) @ newline @
                  (case obj_suffix pg of None \<Rightarrow> [] | Some s \<Rightarrow> s)) st1)
         else (paginator_pages, st1))"

definition store_page_count :: "interface_obj \<Rightarrow> store \<Rightarrow> int \<times> store" where
  "store_page_count self st =
     (let (a, st1) = store_pages self st in (len (list_objs st1 a), st1))"

definition store_display_page :: "interface_obj \<Rightarrow> store \<Rightarrow> int \<times> interface_obj \<times> store" where
  "store_display_page self st =
     (let (pc, st1) = store_page_count self st;
          v = max 0 (min (pc - 1) (obj_display_page self))
      in (v, self\<lparr>obj_display_page := v\<rparr>, st1))"

definition store_send_kwargs ::
  "interface_obj \<Rightarrow> store \<Rightarrow> (error + string) \<times> interface_obj \<times> store"
where
  "store_send_kwargs self st =
     (let (dp, self1, st1) = store_display_page self st;
          (pc, st2) = store_page_count self1 st1;
          page_num = footer (dp + 1) pc;
          (a, st3) = store_pages self1 st2
      in case py_index (list_objs st3 a) dp of
           Inl e \<Rightarrow> (Inl e, self1, st3)
         | Inr content \<Rightarrow> (Inr (content @ page_num), self1, st3))"

section \<open>Vocabulary of the properties\<close>

text \<open>
  A page is rendered from the lines of the open buffer exactly as \<open>close_page\<close> does
  it: the prefix (if any), the lines, the suffix (if any), joined by the line separator.
  \<open>strip_page\<close> removes the prefix with its separator from the front of a page and
  the separator with the suffix from its end.
\<close>

definition prefix_lines :: "'a paginator_scheme \<Rightarrow> string list" where
  "prefix_lines p = (case prefix p of Some s \<Rightarrow> [s] | None \<Rightarrow> [])"

definition suffix_lines :: "'a paginator_scheme \<Rightarrow> string list" where
  "suffix_lines p = (case suffix p of Some s \<Rightarrow> [s] | None \<Rightarrow> [])"

definition render_page :: "'a paginator_scheme \<Rightarrow> string list \<Rightarrow> string" where
  "render_page p chunk = join (linesep p) (prefix_lines p @ chunk @ suffix_lines p)"

definition strip_page :: "'a paginator_scheme \<Rightarrow> string \<Rightarrow> string" where
  "strip_page p page =
     (let a = (case prefix p of Some s \<Rightarrow> length s + length (linesep p) | None \<Rightarrow> 0);
          b = (case suffix p of Some s \<Rightarrow> length (linesep p) + length s | None \<Rightarrow> 0)
      in take (length page - a - b) (drop a page))"

text \<open>
  The length of the page that closing the open buffer now would produce, and the
  number of characters in the open buffer, each line counted with one separator.
\<close>

definition open_page_rendered_len :: "'a paginator_scheme \<Rightarrow> int" where
  "open_page_rendered_len p = len (join (linesep p) (priv_current_page p @ suffix_lines p))"

definition open_buffer_chars :: "'a paginator_scheme \<Rightarrow> int" where
  "open_buffer_chars p = (\<Sum>l\<leftarrow>priv_current_page p. len l + linesep_len p)"

text \<open>
  Sequences of calls.  \<open>add_lines\<close> makes the \<open>add_line\<close> calls of a list in order
  and stops at the first one that raises; \<open>added_lines\<close> is the sequence of lines these
  calls add (a call with \<open>empty=True\<close> adds its line and a blank one).  \<open>run_calls\<close> does
  the same for \<open>add_line\<close>, \<open>close_page\<close> and reads of \<open>pages\<close>.
\<close>

fun added_lines :: "(string \<times> bool) list \<Rightarrow> string list" where
  "added_lines [] = []"
| "added_lines ((line, emp) # cs) = (if emp then [line, ''''] else [line]) @ added_lines cs"

fun add_lines :: "'a paginator_scheme \<Rightarrow> (string \<times> bool) list \<Rightarrow> error + 'a paginator_scheme" where
  "add_lines p [] = Inr p"
| "add_lines p ((line, emp) # cs) =
     (case add_line p line emp of Inl e \<Rightarrow> Inl e | Inr q \<Rightarrow> add_lines q cs)"

datatype paginator_call = AddLine string bool | ClosePage | ReadPages

fun run_call :: "'a paginator_scheme \<Rightarrow> paginator_call \<Rightarrow> error + 'a paginator_scheme" where
  "run_call p (AddLine line emp) = add_line p line emp"
| "run_call p ClosePage = Inr (close_page p)"
| "run_call p ReadPages = Inr (snd (pages p))"

fun run_calls :: "'a paginator_scheme \<Rightarrow> paginator_call list \<Rightarrow> error + 'a paginator_scheme" where
  "run_calls p [] = Inr p"
| "run_calls p (c # cs) = (case run_call p c of Inl e \<Rightarrow> Inl e | Inr q \<Rightarrow> run_calls q cs)"

text \<open>
  The buffer \<open>add_line\<close> appends to: the paginator itself, or with its page closed if
  the line would not fit.  \<open>chunked p ls chunks cur\<close>: the closed pages of \<open>p\<close> render
  the chunks, its open buffer holds \<open>cur\<close> after the prefix, and together they are
  the lines \<open>ls\<close>.
\<close>

definition before_append :: "'a paginator_scheme \<Rightarrow> string \<Rightarrow> 'a paginator_scheme" where
  "before_append p line =
     (if priv_count p + len line + linesep_len p > max_size p - suffix_len p
      then close_page p else p)"

definition chunked :: "'a paginator_scheme \<Rightarrow> string list \<Rightarrow> string list list \<Rightarrow> string list \<Rightarrow> bool" where
  "chunked p ls chunks cur \<longleftrightarrow>
     priv_pages p = map (render_page p) chunks \<and>
     priv_current_page p = prefix_lines p @ cur \<and>
     concat chunks @ cur = ls \<and> [] \<notin> set chunks \<and>
     priv_count p = open_buffer_chars p"

text \<open>
  \<open>occurs_at s d i\<close>: the string \<open>d\<close> occurs in \<open>s\<close> at index \<open>i\<close>.
\<close>

definition occurs_at :: "string \<Rightarrow> string \<Rightarrow> nat \<Rightarrow> bool" where
  "occurs_at s d i \<longleftrightarrow> i + length d \<le> length s \<and> take (length d) (drop i s) = d"

text \<open>
  The body of the \<open>try\<close> block that ends the coroutine of a wrapped module:
  \<open>mod.body[-1].body[-1].body\<close>.
\<close>

definition try_block_body :: "module \<Rightarrow> stmt list option" where
  "try_block_body m =
     (case m of Module mod_body \<Rightarrow>
        (if mod_body = [] then None else
          (case last mod_body of
             AsyncFunctionDef name fargs def_body \<Rightarrow>
               (if def_body = [] then None else
                 (case last def_body of
                    Try body handlers orelse finalbody \<Rightarrow> Some body
                  | _ \<Rightarrow> None))
           | _ \<Rightarrow> None)))"

text \<open>
  Sequences of reads of the interface's properties on the store; the paginator that
  a paginator object and the lists it points to stand for; and \<open>frame st st'\<close>: the
  store \<open>st'\<close> has the paginator objects of \<open>st\<close> and the same list at every address
  in use in \<open>st\<close>.
\<close>

datatype interface_read = ReadInterfacePages | ReadPageCount | ReadDisplayPage | ReadSendKwargs

fun store_read :: "interface_read \<Rightarrow> interface_obj \<Rightarrow> store \<Rightarrow> interface_obj \<times> store" where
  "store_read ReadInterfacePages self st = (self, snd (store_pages self st))"
| "store_read ReadPageCount self st = (self, snd (store_page_count self st))"
| "store_read ReadDisplayPage self st = snd (store_display_page self st)"
| "store_read ReadSendKwargs self st = snd (store_send_kwargs self st)"

fun store_reads :: "interface_read list \<Rightarrow> interface_obj \<Rightarrow> store \<Rightarrow> interface_obj \<times> store" where
  "store_reads [] self st = (self, st)"
| "store_reads (r # rs) self st =
     (case store_read r self st of (self1, st1) \<Rightarrow> store_reads rs self1 st1)"

definition paginator_at :: "store \<Rightarrow> addr \<Rightarrow> paginator" where
  "paginator_at st a =
     (let pg = paginator_objs st a
      in \<lparr>prefix = obj_prefix pg, suffix = obj_suffix pg, max_size = obj_max_size pg,
          linesep = obj_linesep pg, priv_current_page = list_objs st (obj_current_page pg),
          priv_count = obj_count pg, priv_pages = list_objs st (obj_pages pg)\<rparr>)"

definition frame :: "store \<Rightarrow> store \<Rightarrow> bool" where
  "frame st st' \<longleftrightarrow>
     paginator_objs st' = paginator_objs st \<and> limit st \<le> limit st' \<and>
     list_all (\<lambda>a. list_objs st' a = list_objs st a) [0..<limit st]"

text \<open>
  A store with one paginator object (at address 0): one closed page in the list at
  address 0, and the prefix and one line in the open buffer at address 1.
\<close>

definition example_store :: store where
  "example_store =
     \<lparr>list_objs = (\<lambda>_. [])(0 := [''```'' @ newline @ ''first'' @ newline @ ''```''],
                            1 := [''```'', ''ab'']),
      paginator_objs = (\<lambda>_. \<lparr>obj_prefix = Some ''```'', obj_suffix = Some ''```'',
                               obj_max_size = 1900, obj_linesep = newline,
                               obj_current_page = 1, obj_count = 7, obj_pages = 0\<rparr>),
      limit = 2\<rparr>"

section \<open>Paginator: configuration and character count\<close>

lemma close_page_cfg [simp]:
  "prefix (close_page p) = prefix p" "suffix (close_page p) = suffix p"
  "max_size (close_page p) = max_size p" "linesep (close_page p) = linesep p"
  by (simp_all add: close_page_def Let_def split: option.splits)

lemma clear_cfg [simp]:
  "prefix (clear p) = prefix p" "suffix (clear p) = suffix p"
  "max_size (clear p) = max_size p" "linesep (clear p) = linesep p"
  by (simp_all add: clear_def split: option.splits)

lemma add_line_cfg:
  assumes "add_line p line emp = Inr q"
  shows "prefix q = prefix p" "suffix q = suffix p" "max_size q = max_size p" "linesep q = linesep p"
  using assms by (auto simp: add_line_def Let_def split: if_splits)

lemma derived_cfg:
  assumes "prefix q = prefix p" "suffix q = suffix p" "max_size q = max_size p" "linesep q = linesep p"
  shows "prefix_len q = prefix_len p" "suffix_len q = suffix_len p" "linesep_len q = linesep_len p"
    "max_page_size q = max_page_size p"
  using assms by (simp_all add: prefix_len_def suffix_len_def linesep_len_def max_page_size_def)

lemma open_buffer_chars_clear: "priv_count (clear p) = open_buffer_chars (clear p)"
  by (simp add: clear_def open_buffer_chars_def linesep_len_def split: option.splits)

lemma open_buffer_chars_close_page: "priv_count (close_page p) = open_buffer_chars (close_page p)"
  by (simp add: close_page_def open_buffer_chars_def linesep_len_def Let_def split: option.splits)

lemma open_buffer_chars_add_line:
  assumes "priv_count p = open_buffer_chars p" "add_line p line emp = Inr q"
  shows "priv_count q = open_buffer_chars q"
  using assms open_buffer_chars_close_page[of p]
  by (auto simp: add_line_def Let_def open_buffer_chars_def linesep_len_def split: if_splits)

lemma open_buffer_chars_pages:
  assumes "priv_count p = open_buffer_chars p"
  shows "priv_count (snd (pages p)) = open_buffer_chars (snd (pages p))"
  using assms open_buffer_chars_close_page[of p]
  by (simp add: pages_def Let_def)

lemma join_Cons: "ys \<noteq> [] \<Longrightarrow> join sep (x # ys) = x @ sep @ join sep ys"
  by (cases ys) simp_all

lemma join_snoc: "xs \<noteq> [] \<Longrightarrow> join sep (xs @ [y]) = join sep xs @ sep @ y"
proof (induction xs rule: join.induct[of _ sep])
  case (3 s x y' ys)
  then show ?case by simp
qed simp_all

lemma strip_render:
  assumes "chunk \<noteq> []"
  shows "strip_page p (render_page p chunk) = join (linesep p) chunk"
proof -
  let ?L = "linesep p"
  have suf: "join ?L (chunk @ suffix_lines p) =
      join ?L chunk @ (case suffix p of Some s \<Rightarrow> ?L @ s | None \<Rightarrow> [])"
    using assms by (simp add: suffix_lines_def join_snoc split: option.splits)
  have pre: "render_page p chunk =
      (case prefix p of Some s \<Rightarrow> s @ ?L | None \<Rightarrow> []) @ join ?L (chunk @ suffix_lines p)"
    using assms by (simp add: render_page_def prefix_lines_def join_Cons split: option.splits)
  show ?thesis
    unfolding pre suf by (simp add: strip_page_def split: option.splits)
qed

lemma render_page_cong:
  "prefix q = prefix p \<Longrightarrow> suffix q = suffix p \<Longrightarrow> linesep q = linesep p \<Longrightarrow>
   render_page q = render_page p"
  by (simp add: render_page_def prefix_lines_def suffix_lines_def fun_eq_iff)

lemma close_page_chunked:
  assumes "chunked p ls chunks cur" "cur \<noteq> []"
  shows "chunked (close_page p) ls (chunks @ [cur]) []"
proof -
  have "priv_pages (close_page p) = priv_pages p @ [render_page p cur]"
    using assms(1)
    by (simp add: close_page_def Let_def chunked_def render_page_def suffix_lines_def
        split: option.splits)
  moreover have "priv_current_page (close_page p) = prefix_lines (close_page p)"
    by (simp add: close_page_def Let_def prefix_lines_def split: option.splits)
  moreover have "render_page (close_page p) = render_page p"
    by (rule render_page_cong) simp_all
  ultimately show ?thesis
    using assms open_buffer_chars_close_page[of p] by (simp add: chunked_def)
qed

lemma fresh_no_overflow:
  assumes "chunked p ls chunks []" "len line \<le> max_page_size p"
  shows "\<not> priv_count p + len line + linesep_len p > max_size p - suffix_len p"
  using assms
  by (auto simp: chunked_def open_buffer_chars_def prefix_lines_def max_page_size_def
      prefix_len_def linesep_len_def split: option.splits if_splits)

lemma add_line_fields:
  assumes "add_line p line emp = Inr q"
  shows "priv_pages q = priv_pages (before_append p line)"
    and "priv_current_page q = priv_current_page (before_append p line) @ added_lines [(line, emp)]"
  using assms by (auto simp: add_line_def Let_def before_append_def split: if_splits)

lemma add_line_succeeds:
  "len line \<le> max_page_size p \<Longrightarrow> \<exists>q. add_line p line emp = Inr q"
  by (simp add: add_line_def Let_def)

lemma chunked_append:
  assumes c: "chunked p1 ls chunks cur" and q: "add_line p line emp = Inr q"
    and p1: "p1 = before_append p line" and pc: "priv_count p = open_buffer_chars p"
  shows "chunked q (ls @ added_lines [(line, emp)]) chunks (cur @ added_lines [(line, emp)])"
proof -
  have cfg: "prefix q = prefix p1" "suffix q = suffix p1" "linesep q = linesep p1"
    using add_line_cfg[OF q] p1 by (simp_all add: before_append_def)
  have r: "render_page q = render_page p1" by (rule render_page_cong[OF cfg])
  have pl: "prefix_lines q = prefix_lines p1" using cfg by (simp add: prefix_lines_def)
  have "priv_pages q = map (render_page q) chunks"
    using c add_line_fields(1)[OF q] p1 r by (simp add: chunked_def)
  moreover have "priv_current_page q = prefix_lines q @ cur @ added_lines [(line, emp)]"
    using c add_line_fields(2)[OF q] p1 pl by (simp add: chunked_def)
  moreover have "concat chunks @ cur @ added_lines [(line, emp)] = ls @ added_lines [(line, emp)]"
    using c by (simp add: chunked_def)
  moreover have "[] \<notin> set chunks" using c by (simp add: chunked_def)
  moreover have "priv_count q = open_buffer_chars q"
    by (rule open_buffer_chars_add_line[OF pc q])
  ultimately show ?thesis unfolding chunked_def by simp
qed

lemma add_line_chunked:
  assumes "chunked p ls chunks cur" "len line \<le> max_page_size p"
  shows "\<exists>q chunks' cur'. add_line p line emp = Inr q \<and>
           chunked q (ls @ added_lines [(line, emp)]) chunks' cur' \<and> cur' \<noteq> []"
proof -
  obtain q where q: "add_line p line emp = Inr q"
    using add_line_succeeds[OF assms(2)] by blast
  have pc: "priv_count p = open_buffer_chars p" using assms(1) by (simp add: chunked_def)
  show ?thesis
  proof (cases "priv_count p + len line + linesep_len p > max_size p - suffix_len p")
    case True
    with assms fresh_no_overflow[of p ls chunks line] have ne: "cur \<noteq> []" by auto
    have b: "before_append p line = close_page p" using True by (simp add: before_append_def)
    from close_page_chunked[OF assms(1) ne]
    have "chunked (before_append p line) ls (chunks @ [cur]) []" by (simp add: b)
    from chunked_append[OF this q refl pc] show ?thesis using q by fastforce
  next
    case False
    then have "chunked (before_append p line) ls chunks cur"
      using assms(1) by (simp add: before_append_def)
    from chunked_append[OF this q refl pc] show ?thesis using q by fastforce
  qed
qed

lemma add_lines_chunked:
  assumes "chunked p ls chunks cur" "\<forall>c\<in>set calls. len (fst c) \<le> max_page_size p"
  shows "\<exists>q chunks' cur'. add_lines p calls = Inr q \<and>
           chunked q (ls @ added_lines calls) chunks' cur' \<and>
           prefix q = prefix p \<and> suffix q = suffix p \<and> max_size q = max_size p \<and>
           linesep q = linesep p \<and> (cur \<noteq> [] \<or> calls \<noteq> [] \<longrightarrow> cur' \<noteq> [])"
  using assms
proof (induction calls arbitrary: p ls chunks cur)
  case Nil
  then show ?case by auto
next
  case (Cons c calls)
  obtain line emp where c: "c = (line, emp)" by (cases c)
  from Cons.prems c have le: "len line \<le> max_page_size p" by simp
  from add_line_chunked[OF Cons.prems(1) le, of emp]
  obtain q chunks1 cur1 where q: "add_line p line emp = Inr q"
    and ch: "chunked q (ls @ added_lines [(line, emp)]) chunks1 cur1" and ne: "cur1 \<noteq> []"
    by blast
  note cfg = add_line_cfg[OF q]
  have mp: "max_page_size q = max_page_size p" by (rule derived_cfg(4)[OF cfg])
  have "\<forall>c\<in>set calls. len (fst c) \<le> max_page_size q" using Cons.prems(2) mp by simp
  from Cons.IH[OF ch this]
  obtain r chunks2 cur2 where r: "add_lines q calls = Inr r"
    and ch2: "chunked r ((ls @ added_lines [(line, emp)]) @ added_lines calls) chunks2 cur2"
    and cfg2: "prefix r = prefix q" "suffix r = suffix q" "max_size r = max_size q"
      "linesep r = linesep q"
    and ne2: "cur1 \<noteq> [] \<or> calls \<noteq> [] \<longrightarrow> cur2 \<noteq> []"
    by blast
  have "add_lines p (c # calls) = Inr r" using q r c by simp
  moreover have "chunked r (ls @ added_lines (c # calls)) chunks2 cur2"
    using ch2 c by simp
  ultimately show ?case using cfg cfg2 ne ne2 by auto
qed

lemma clear_chunked: "chunked (clear p) [] [] []"
  using open_buffer_chars_clear[of p]
  by (simp add: chunked_def) (simp add: clear_def prefix_lines_def split: option.splits)

lemma pages_chunked:
  assumes "chunked p ls chunks cur"
  shows "\<exists>chunks'. fst (pages p) = map (render_page p) chunks' \<and> concat chunks' = ls \<and>
            [] \<notin> set chunks'"
proof (cases "cur = []")
  case True
  then have "pages p = (priv_pages p, p)"
    using assms by (simp add: pages_def chunked_def prefix_lines_def split: option.splits)
  then show ?thesis using assms True by (auto simp: chunked_def)
next
  case False
  then have "pages p = (priv_pages (close_page p), close_page p)"
    using assms by (auto simp: pages_def chunked_def prefix_lines_def Let_def split: option.splits)
  moreover have "render_page (close_page p) = render_page p"
    by (rule render_page_cong) simp_all
  ultimately show ?thesis
    using close_page_chunked[OF assms False]
    by (intro exI[of _ "chunks @ [cur]"]) (simp add: chunked_def)
qed

section \<open>Paginator: the pages hold the lines that were added\<close>

text \<open>
  Claim C1.  Take a fresh paginator and any sequence of \<open>add_line\<close> calls in which
  every line is within the usable capacity \<open>max_page_size\<close> (\<open>max_size\<close> minus the
  prefix length, the suffix length and twice the separator length).  Then no call
  raises, and the pages that the \<open>pages\<close> accessor returns are the renderings of
  consecutive chunks of the added lines: stripping prefix and suffix from each page
  leaves the lines of its chunk joined by the separator, and the chunks concatenated
  are the lines in the order they were added.
\<close>

theorem C1_pages_reconstruct_lines:
  assumes "\<forall>c\<in>set calls. len (fst c) \<le> max_page_size (Paginator pre suf ms sep)"
  shows "\<exists>p chunks. add_lines (Paginator pre suf ms sep) calls = Inr p \<and>
           fst (pages p) = map (render_page p) chunks \<and>
           map (strip_page p) (fst (pages p)) = map (join (linesep p)) chunks \<and>
           concat chunks = added_lines calls"
proof -
  let ?p0 = "Paginator pre suf ms sep"
  have "chunked ?p0 [] [] []" unfolding Paginator_def by (rule clear_chunked)
  from add_lines_chunked[OF this assms]
  obtain p chunks cur where p: "add_lines ?p0 calls = Inr p"
    and ch: "chunked p ([] @ added_lines calls) chunks cur" by blast
  from pages_chunked[OF ch]
  obtain chunks' where r: "fst (pages p) = map (render_page p) chunks'"
    and c: "concat chunks' = added_lines calls" and ne: "[] \<notin> set chunks'" by auto
  have "map (strip_page p) (fst (pages p)) = map (join (linesep p)) chunks'"
  proof -
    have "strip_page p (render_page p x) = join (linesep p) x" if "x \<in> set chunks'" for x
      using that ne by (intro strip_render) auto
    then show ?thesis unfolding r by simp
  qed
  with p r c show ?thesis by blast
qed

theorem C1_pages_reconstruct_lines_witness:
  "max_page_size (Paginator (Some ''```'') (Some ''```'') 12 newline) = 4 \<and>
   (\<exists>p chunks.
      add_lines (Paginator (Some ''```'') (Some ''```'') 12 newline)
        [(''ab'', False), (''cd'', True), (''efgh'', False)] = Inr p \<and>
      fst (pages p) = map (render_page p) chunks \<and>
      map (strip_page p) (fst (pages p)) = map (join (linesep p)) chunks \<and>
      concat chunks = added_lines [(''ab'', False), (''cd'', True), (''efgh'', False)])"
proof -
  have h: "\<forall>c\<in>set [(''ab'', False), (''cd'', True), (''efgh'', False)].
      len (fst c) \<le> max_page_size (Paginator (Some ''```'') (Some ''```'') 12 newline)"
    by code_simp
  have m: "max_page_size (Paginator (Some ''```'') (Some ''```'') 12 newline) = 4"
    by code_simp
  show ?thesis using m C1_pages_reconstruct_lines[OF h] by blast
qed

section \<open>Paginator: the length of a paginator\<close>

lemma call_count:
  assumes "priv_count p = open_buffer_chars p" "run_call p c = Inr q"
  shows "priv_count q = open_buffer_chars q"
  using assms open_buffer_chars_add_line open_buffer_chars_close_page[of p] open_buffer_chars_pages[of p]
  by (cases c) auto

lemma calls_count:
  assumes "priv_count p = open_buffer_chars p" "run_calls p cs = Inr q"
  shows "priv_count q = open_buffer_chars q"
  using assms
proof (induction cs arbitrary: p)
  case Nil
  then show ?case by simp
next
  case (Cons c cs)
  then show ?case by (auto split: sum.splits dest: call_count)
qed

text \<open>
  Claim C9.  After any sequence of \<open>add_line\<close> and \<open>close_page\<close> calls and reads of
  \<open>pages\<close> on a fresh paginator, \<open>len(paginator)\<close> is the sum of the lengths of the
  closed pages plus the character count of the open buffer, and \<open>_count\<close> is that
  character count (every line of the buffer with one separator).  The same holds for
  the paginator that a further read of \<open>pages\<close> leaves behind, whose closed pages
  are the pages returned.
\<close>

theorem C9_len_is_closed_plus_open:
  assumes "run_calls (Paginator pre suf ms sep) cs = Inr p"
  shows "paginator_len p = (\<Sum>q\<leftarrow>priv_pages p. len q) + open_buffer_chars p \<and>
         priv_count p = open_buffer_chars p \<and>
         (case pages p of (ps, p') \<Rightarrow>
            ps = priv_pages p' \<and>
            paginator_len p' = (\<Sum>q\<leftarrow>ps. len q) + open_buffer_chars p' \<and>
            priv_count p' = open_buffer_chars p')"
proof -
  have "priv_count (Paginator pre suf ms sep) = open_buffer_chars (Paginator pre suf ms sep)"
    unfolding Paginator_def by (rule open_buffer_chars_clear)
  from calls_count[OF this assms] have c: "priv_count p = open_buffer_chars p" .
  from open_buffer_chars_pages[OF c] have c': "priv_count (snd (pages p)) = open_buffer_chars (snd (pages p))" .
  have "fst (pages p) = priv_pages (snd (pages p))" by (simp add: pages_def Let_def)
  with c c' show ?thesis by (cases "pages p") (simp add: paginator_len_def)
qed

theorem C9_len_is_closed_plus_open_witness:
  "\<exists>p. run_calls (Paginator (Some ''```'') (Some ''```'') 12 newline)
          [AddLine ''ab'' False, ClosePage, AddLine ''cd'' True, ReadPages,
           AddLine ''efgh'' False] = Inr p \<and>
       paginator_len p = (\<Sum>q\<leftarrow>priv_pages p. len q) + open_buffer_chars p \<and>
       priv_count p = open_buffer_chars p \<and>
       (case pages p of (ps, p') \<Rightarrow>
          ps = priv_pages p' \<and>
          paginator_len p' = (\<Sum>q\<leftarrow>ps. len q) + open_buffer_chars p' \<and>
          priv_count p' = open_buffer_chars p')"
proof -
  have "\<not> isl (run_calls (Paginator (Some ''```'') (Some ''```'') 12 newline)
          [AddLine ''ab'' False, ClosePage, AddLine ''cd'' True, ReadPages,
           AddLine ''efgh'' False])"
    by code_simp
  then obtain p where p: "run_calls (Paginator (Some ''```'') (Some ''```'') 12 newline)
          [AddLine ''ab'' False, ClosePage, AddLine ''cd'' True, ReadPages,
           AddLine ''efgh'' False] = Inr p"
    by (metis sum.collapse(2))
  show ?thesis
    by (rule exI[of _ p]) (rule conjI[OF p C9_len_is_closed_plus_open[OF p]])
qed

section \<open>Paginator: the capacity boundary\<close>

text \<open>
  Claim C3.  \<open>add_line\<close> accepts a line whose length is exactly the usable capacity
  \<open>max_page_size\<close>; it raises the size-exceeded error, carrying that capacity, for
  every longer line (one character longer included); and whenever it accepts a line,
  the open buffer ends with the whole line (followed by the blank line if
  \<open>empty=True\<close>): nothing is cut off.
\<close>

theorem C3_capacity_boundary:
  "(len line = max_page_size p \<longrightarrow>
      (\<exists>q front. add_line p line emp = Inr q \<and>
         priv_current_page q = front @ added_lines [(line, emp)])) \<and>
   (len line > max_page_size p \<longrightarrow> add_line p line emp = Inl (LineExceeds (max_page_size p))) \<and>
   (\<forall>q. add_line p line emp = Inr q \<longrightarrow>
      (\<exists>front. priv_current_page q = front @ added_lines [(line, emp)]))"
  by (auto simp: add_line_def Let_def)

theorem C3_capacity_boundary_witness:
  "len ''abcd'' = max_page_size (Paginator (Some ''```'') (Some ''```'') 12 newline) \<and>
   (\<exists>q front. add_line (Paginator (Some ''```'') (Some ''```'') 12 newline) ''abcd'' False = Inr q \<and>
        priv_current_page q = front @ added_lines [(''abcd'', False)]) \<and>
   len ''abcde'' > max_page_size (Paginator (Some ''```'') (Some ''```'') 12 newline) \<and>
   add_line (Paginator (Some ''```'') (Some ''```'') 12 newline) ''abcde'' False = Inl (LineExceeds 4)"
proof -
  let ?P = "Paginator (Some ''```'') (Some ''```'') 12 newline"
  have m: "max_page_size ?P = 4" by code_simp
  have h1: "len ''abcd'' = max_page_size ?P" by code_simp
  have h2: "len ''abcde'' > max_page_size ?P" by code_simp
  show ?thesis
    using h1 h2 C3_capacity_boundary[of "''abcd''" ?P False]
      C3_capacity_boundary[of "''abcde''" ?P False] m
    by metis
qed

section \<open>Paginator: the size of the open page\<close>

text \<open>
  A call of \<open>add_line\<close> without \<open>empty\<close> leaves an open buffer that renders to at most
  \<open>max_size\<close> characters: the check before the append covers the line and its
  separator.
\<close>

lemma rendered_len_eq:
  assumes "priv_count p = open_buffer_chars p" "priv_current_page p \<noteq> []"
  shows "open_page_rendered_len p =
           priv_count p + (case suffix p of Some s \<Rightarrow> len s | None \<Rightarrow> - linesep_len p)"
proof -
  have j: "xs \<noteq> [] \<Longrightarrow> len (join sep xs) = (\<Sum>y\<leftarrow>xs. len y + len sep) - len sep" for xs sep
    by (induction xs rule: join.induct[of _ sep]) auto
  show ?thesis using assms
    by (simp add: open_page_rendered_len_def j suffix_lines_def open_buffer_chars_def linesep_len_def
        split: option.splits)
qed

lemma add_line_plain_within_max_size:
  assumes pc: "priv_count p = open_buffer_chars p" and q: "add_line p line False = Inr q"
  shows "open_page_rendered_len q \<le> max_size q"
proof -
  have le: "len line \<le> max_page_size p" using q by (auto simp: add_line_def split: if_splits)
  have fresh: "priv_count (close_page p) + len line + linesep_len p \<le> max_size p - suffix_len p"
    using le
    by (auto simp: close_page_def Let_def max_page_size_def prefix_len_def linesep_len_def
        split: option.splits if_splits)
  have cnt: "priv_count q \<le> max_size q - suffix_len q"
    using q fresh by (auto simp: add_line_def Let_def suffix_len_def linesep_len_def split: if_splits)
  have ne: "priv_current_page q \<noteq> []" using q by (auto simp: add_line_def Let_def split: if_splits)
  have "open_page_rendered_len q \<le> priv_count q + suffix_len q"
    using rendered_len_eq[OF open_buffer_chars_add_line[OF pc q] ne]
    by (simp add: suffix_len_def linesep_len_def split: option.splits)
  with cnt show ?thesis by simp
qed

text \<open>
  Claim C2: the open buffer never renders to more than \<open>max_size\<close> characters, calls
  with \<open>empty=True\<close> included.  The code does not keep this: the blank line of
  \<open>empty=True\<close> is appended after that check and is not checked itself.  With \<open>max_size = 20\<close>, prefix and suffix of three characters and a
  one-character separator, a line of 12 characters (the full capacity) added with
  \<open>empty=True\<close> does not raise and leaves an open buffer that renders to 21
  characters; the \<open>pages\<close> accessor then returns one page of 21 characters.
\<close>

theorem C2_empty_line_overflows_page:
  "map_sum id (\<lambda>q. (max_size q, open_page_rendered_len q, map len (fst (pages q))))
     (add_line (Paginator (Some ''```'') (Some ''```'') 20 newline) ''aaaaaaaaaaaa'' True)
   = Inr (20, 21, [21])"
  by code_simp

section \<open>PaginatorInterface: the displayed page\<close>

lemma page_count_nonneg: "0 \<le> page_count self"
  by (simp add: page_count_def)

lemma interface_pages_cong: "paginator a = paginator b \<Longrightarrow> interface_pages a = interface_pages b"
  by (simp add: interface_pages_def Let_def cong: if_cong)

lemma paginator_set_display_page: "paginator (set_display_page self v) = paginator self"
  by (simp add: set_display_page_def)

lemma page_count_set_display_page: "page_count (set_display_page self v) = page_count self"
  unfolding page_count_def
  by (simp add: interface_pages_cong[OF paginator_set_display_page])

text \<open>
  Claim C7, as the code has it.  When the interface has at least one page, reading
  \<open>display_page\<close> returns a value in \<open>[0, page_count - 1]\<close>, and so does reading it
  after assigning any integer.  When it has no page, that interval is empty and both
  reads return 0: the outer \<open>max(0, ...)\<close> wins.  Assigning does not change the page
  count.
\<close>

theorem C7_display_page_clamped:
  "(1 \<le> page_count self \<longrightarrow>
      0 \<le> fst (display_page self) \<and> fst (display_page self) \<le> page_count self - 1 \<and>
      0 \<le> fst (display_page (set_display_page self v)) \<and>
      fst (display_page (set_display_page self v)) \<le> page_count (set_display_page self v) - 1) \<and>
   (page_count self = 0 \<longrightarrow>
      fst (display_page self) = 0 \<and> fst (display_page (set_display_page self v)) = 0) \<and>
   page_count (set_display_page self v) = page_count self"
  unfolding page_count_set_display_page
  by (auto simp: display_page_def Let_def) (simp_all add: set_display_page_def)

theorem C7_display_page_clamped_witness:
  "page_count (new_interface (close_page (close_page (Paginator (Some ''```'') (Some ''```'') 1900 newline)))
                 None 7200 False) = 2 \<and>
   fst (display_page (set_display_page
      (new_interface (close_page (close_page (Paginator (Some ''```'') (Some ''```'') 1900 newline)))
         None 7200 False) 7)) \<le> 1 \<and>
   0 \<le> fst (display_page (set_display_page
      (new_interface (close_page (close_page (Paginator (Some ''```'') (Some ''```'') 1900 newline)))
         None 7200 False) (- 3))) \<and>
   page_count (new_interface (Paginator (Some ''```'') (Some ''```'') 1900 newline) None 7200 False) = 0 \<and>
   fst (display_page (set_display_page
      (new_interface (Paginator (Some ''```'') (Some ''```'') 1900 newline) None 7200 False) 5)) = 0"
proof -
  let ?I2 = "new_interface (close_page (close_page (Paginator (Some ''```'') (Some ''```'') 1900 newline)))
                 None 7200 False"
  let ?I0 = "new_interface (Paginator (Some ''```'') (Some ''```'') 1900 newline) None 7200 False"
  have h2: "page_count ?I2 = 2" by code_simp
  have h0: "page_count ?I0 = 0" by code_simp
  show ?thesis
    using h2 h0 C7_display_page_clamped[of ?I2 7] C7_display_page_clamped[of ?I2 "- 3"]
      C7_display_page_clamped[of ?I0 5]
    by simp
qed

text \<open>
  The claim as stated fails on an interface without pages: a fresh paginator has only
  its prefix in the open buffer, the page count is 0, and \<open>display_page\<close> reads 0 (also
  after assigning 5), which is not at most \<open>page_count - 1 = -1\<close>.
\<close>

theorem C7_no_pages_counterexample:
  "page_count (new_interface (Paginator (Some ''```'') (Some ''```'') 1900 newline) None 7200 False) = 0 \<and>
   fst (display_page (new_interface (Paginator (Some ''```'') (Some ''```'') 1900 newline) None 7200 False)) = 0 \<and>
   fst (display_page (set_display_page (new_interface (Paginator (Some ''```'') (Some ''```'') 1900 newline) None 7200 False) 5)) = 0 \<and>
   \<not> (fst (display_page (new_interface (Paginator (Some ''```'') (Some ''```'') 1900 newline) None 7200 False))
        \<le> page_count (new_interface (Paginator (Some ''```'') (Some ''```'') 1900 newline) None 7200 False) - 1)"
  by code_simp

section \<open>PaginatorInterface: the check at construction\<close>

lemma str_nat_nonempty: "str_nat n \<noteq> []"
  by (subst str_nat.simps) simp

lemma str_nat_length_mono: "a \<le> b \<Longrightarrow> length (str_nat a) \<le> length (str_nat b)"
proof (induction b arbitrary: a rule: str_nat.induct)
  case (1 n)
  show ?case
  proof (cases "n < 10")
    case True
    with "1.prems" have "a < 10" by simp
    with True show ?thesis by (subst (1 2) str_nat.simps) simp
  next
    case False
    show ?thesis
    proof (cases "a < 10")
      case True
      then have "length (str_nat a) = 1" by (subst str_nat.simps) simp
      moreover have "length (str_nat n) \<ge> 1" using str_nat_nonempty[of n] by (cases "str_nat n") auto
      ultimately show ?thesis by simp
    next
      case a: False
      have "a div 10 \<le> n div 10" using "1.prems" by (rule div_le_mono)
      from "1.IH"[OF False this] show ?thesis
        using False a by (subst (1 2) str_nat.simps) simp
    qed
  qed
qed

lemma footer_longest:
  assumes "0 \<le> k" "k \<le> max 1 n" "0 \<le> n"
  shows "len (footer k n) \<le> len (footer n n)"
proof -
  have "length (str_nat (nat k)) \<le> length (str_nat (nat (max 1 n)))"
    using assms by (intro str_nat_length_mono) simp
  also have "length (str_nat (nat (max 1 n))) = length (str_nat (nat n))"
  proof (cases "n = 0")
    case True
    then show ?thesis by (simp add: str_nat.simps[of 0] str_nat.simps[of 1] str_nat.simps[of "Suc 0"])
  next
    case False
    with assms have "max 1 n = n" by simp
    then show ?thesis by simp
  qed
  finally show ?thesis using assms by (simp add: footer_def str_int_def)
qed

text \<open>
  Claim C8.  Constructing a \<open>PaginatorInterface\<close> returns the page-size error exactly
  when the paginator's \<open>max_size\<close> plus the length of the footer \<open>"\nPage n/n"\<close>, with
  \<open>n\<close> the page count at construction, exceeds 2000; otherwise it returns the new
  interface, whose message is still unset.  That footer is the longest one the
  interface can show for this page count: no footer \<open>"\nPage k/n"\<close> with \<open>k\<close> between 0
  and \<open>max(1, n)\<close> is longer.
\<close>

theorem C8_construction_check:
  "PaginatorInterface pg own tmo del =
     (if max_size pg + len (footer (page_count (new_interface pg own tmo del))
                                   (page_count (new_interface pg own tmo del))) > 2000
      then Inl (PageSizeTooLarge
                  (max_size pg + len (footer (page_count (new_interface pg own tmo del))
                                             (page_count (new_interface pg own tmo del)))) 2000)
      else Inr (new_interface pg own tmo del)) \<and>
   message (new_interface pg own tmo del) = None \<and>
   (\<forall>k. 0 \<le> k \<and> k \<le> max 1 (page_count (new_interface pg own tmo del)) \<longrightarrow>
      len (footer k (page_count (new_interface pg own tmo del)))
      \<le> len (footer (page_count (new_interface pg own tmo del))
                     (page_count (new_interface pg own tmo del))))"
proof -
  have "paginator (new_interface pg own tmo del) = pg" by (simp add: new_interface_def)
  then have "PaginatorInterface pg own tmo del =
     (if max_size pg + len (footer (page_count (new_interface pg own tmo del))
                                   (page_count (new_interface pg own tmo del))) > 2000
      then Inl (PageSizeTooLarge
                  (max_size pg + len (footer (page_count (new_interface pg own tmo del))
                                             (page_count (new_interface pg own tmo del)))) 2000)
      else Inr (new_interface pg own tmo del))"
    by (simp add: PaginatorInterface_def Let_def page_size_def interface_max_page_size_def)
  moreover have "message (new_interface pg own tmo del) = None" by (simp add: new_interface_def)
  ultimately show ?thesis using footer_longest page_count_nonneg by blast
qed

theorem C8_construction_check_witness:
  "PaginatorInterface (Paginator (Some ''```'') (Some ''```'') 1992 newline) None 7200 False
     = Inl (PageSizeTooLarge 2001 2000) \<and>
   PaginatorInterface (Paginator (Some ''```'') (Some ''```'') 1991 newline) None 7200 False
     = Inr (new_interface (Paginator (Some ''```'') (Some ''```'') 1991 newline) None 7200 False) \<and>
   len (footer 1 0) \<le> len (footer 0 0)"
proof -
  let ?A = "Paginator (Some ''```'') (Some ''```'') 1992 newline"
  let ?B = "Paginator (Some ''```'') (Some ''```'') 1991 newline"
  have a: "page_count (new_interface ?A None 7200 False) = 0" by code_simp
  have b: "page_count (new_interface ?B None 7200 False) = 0" by code_simp
  have f: "len (footer 0 0) = 9" by code_simp
  have ma: "max_size ?A = 1992" by code_simp
  have mb: "max_size ?B = 1991" by code_simp
  have k: "(0::int) \<le> 1 \<and> (1::int) \<le> max 1 0" by simp
  show ?thesis
    using C8_construction_check[of ?A None 7200 False] C8_construction_check[of ?B None 7200 False]
      k unfolding a b f ma mb
    by simp
qed

section \<open>WrappedPaginator: searching and wrapping\<close>

text \<open>
  \<open>rfind\<close> returns an index at which the delimiter occurs, and no occurrence lies to
  the right of it.
\<close>

lemma rfind_at_sound:
  assumes "rfind_at s d i = int k"
  shows "k \<le> i \<and> take (length d) (drop k s) = d"
  using assms
proof (induction i)
  case 0
  then show ?case by (auto split: if_splits)
next
  case (Suc i)
  show ?case
  proof (cases "take (length d) (drop (Suc i) s) = d")
    case True
    with Suc.prems have "int k = int (Suc i)" by simp
    then have "k = Suc i" by (simp only: int_int_eq)
    with True show ?thesis by simp
  next
    case False
    with Suc show ?thesis by simp
  qed
qed

lemma rfind_at_greatest:
  assumes "j \<le> i" "take (length d) (drop j s) = d"
  shows "int j \<le> rfind_at s d i"
  using assms
proof (induction i)
  case 0
  then show ?case by simp
next
  case (Suc i)
  then show ?case by (cases "j = Suc i") auto
qed

lemma rfind_sound:
  assumes "0 \<le> rfind s d"
  shows "occurs_at s d (nat (rfind s d))"
proof -
  from assms have le: "length d \<le> length s" by (auto simp: rfind_def split: if_splits)
  then have r: "rfind s d = rfind_at s d (length s - length d)" by (simp add: rfind_def)
  with assms have "rfind_at s d (length s - length d) = int (nat (rfind s d))" by simp
  from rfind_at_sound[OF this] le show ?thesis by (auto simp: occurs_at_def)
qed

lemma rfind_greatest:
  assumes "occurs_at s d i"
  shows "int i \<le> rfind s d"
proof -
  from assms have "length d \<le> length s" "i \<le> length s - length d" "take (length d) (drop i s) = d"
    by (auto simp: occurs_at_def)
  then show ?thesis using rfind_at_greatest[of i "length s - length d" d s] by (simp add: rfind_def)
qed

lemma rfind_le: "0 \<le> rfind s d \<Longrightarrow> rfind s d \<le> len s - len d"
  using rfind_sound[of s d] by (auto simp: occurs_at_def)

lemma find_delimiter_None:
  assumes "\<forall>d\<in>set ds. \<forall>i>0. \<not> occurs_at s d i"
  shows "find_delimiter s ds = None"
  using assms
proof (induction ds)
  case Nil
  then show ?case by simp
next
  case (Cons d ds)
  have "\<not> 0 < rfind s d"
  proof
    assume p: "0 < rfind s d"
    then have "occurs_at s d (nat (rfind s d))" by (intro rfind_sound) simp
    moreover from p have "nat (rfind s d) > 0" by simp
    ultimately show False using Cons.prems by auto
  qed
  with Cons show ?case by (simp add: Let_def)
qed

lemma find_delimiter_Some:
  assumes "find_delimiter s ds = Some (position, delimiter)"
  shows "0 < position \<and> position \<le> len s - len delimiter \<and> delimiter \<in> set ds \<and>
         position = rfind s delimiter"
  using assms
proof (induction ds)
  case Nil
  then show ?case by simp
next
  case (Cons d ds)
  then show ?case using rfind_le[of s d] by (auto simp: Let_def split: if_splits)
qed

lemma wrapped_loop_fuel_mono:
  assumes "wrapped_loop n p ol line emp = Some r" "n \<le> m"
  shows "wrapped_loop m p ol line emp = Some r"
  using assms
proof (induction n arbitrary: m p line)
  case 0
  then show ?case by (cases m) (auto split: if_splits)
next
  case (Suc n)
  then obtain m' where m: "m = Suc m'" and le: "n \<le> m'" by (cases m) auto
  show ?case
  proof (cases "len line > true_max_size p")
    case False
    with Suc.prems m show ?thesis by simp
  next
    case True
    show ?thesis
      using Suc.prems(1) True Suc.IH[OF _ le] unfolding m
      by (auto simp: Let_def split: option.splits sum.splits if_splits prod.splits)
  qed
qed

lemma wrap_impossible_without_force_wrap:
  assumes "len line > true_max_size p" "\<not> force_wrap p"
    and "\<forall>d\<in>set (wrap_on p). \<forall>i>0. \<not> occurs_at (slice_to line (true_max_size p - 1)) d i"
  shows "wrapped_add_line (Suc n) p line emp =
           Some (Inl (WrapImpossible (len line) (len line) (true_max_size p) (wrap_on p)))"
  using assms(1,2) find_delimiter_None[OF assms(3)]
  by (simp add: wrapped_add_line_def Let_def)

text \<open>
  With a line separator of at most one character and a usable size of at least 2,
  \<open>force_wrap=True\<close> makes \<open>add_line\<close> succeed on every line, given fuel for one pass
  per character: every piece handed to the base \<open>add_line\<close> is within its capacity.
  With a usable size of exactly 1 the forced cut is empty and the loop never ends.
\<close>

lemma add_line_wrapped_cfg:
  fixes p :: "'a wrapped_paginator_scheme"
  assumes "add_line p line emp = Inr q"
  shows "wrap_on q = wrap_on p" "include_wrapped q = include_wrapped p" "force_wrap q = force_wrap p"
  using assms by (auto simp: add_line_def Let_def close_page_def split: if_splits option.splits)

lemma add_line_true_max_size:
  assumes "add_line p line emp = Inr q"
  shows "true_max_size q = true_max_size p" "linesep_len q = linesep_len p"
  using derived_cfg[OF add_line_cfg[OF assms]] add_line_cfg[OF assms]
  by (simp_all add: true_max_size_def)

lemma true_max_size_le_capacity:
  "linesep_len p \<le> 1 \<Longrightarrow> true_max_size p \<le> max_page_size p"
  by (simp add: true_max_size_def max_page_size_def)

lemma force_wrap_succeeds:
  assumes "2 \<le> true_max_size p" "linesep_len p \<le> 1" "force_wrap p" "length line \<le> n"
  shows "\<exists>q. wrapped_loop n p ol line emp = Some (Inr q)"
  using assms
proof (induction n arbitrary: p line)
  case 0
  then have "len line \<le> max_page_size p" using true_max_size_le_capacity[of p] by simp
  from add_line_succeeds[OF this] 0 show ?case by auto
next
  case (Suc n)
  let ?t = "true_max_size p"
  have cap: "?t \<le> max_page_size p" using Suc.prems(2) by (rule true_max_size_le_capacity)
  show ?case
  proof (cases "len line > ?t")
    case False
    then have "len line \<le> max_page_size p" using cap by simp
    from add_line_succeeds[OF this] False show ?thesis by auto
  next
    case True
    let ?ss = "slice_to line (?t - 1)"
    have ss: "len ?ss \<le> ?t - 1" using Suc.prems(1) by (simp add: slice_to_def)
    show ?thesis
    proof (cases "find_delimiter ?ss (wrap_on p)")
      case None
      have "len (slice_to line (?t - 1)) \<le> max_page_size p" using ss cap by simp
      from add_line_succeeds[OF this] obtain q where
        q: "add_line p (slice_to line (?t - 1)) False = Inr q" by blast
      have "length (slice_from line (?t - 1)) \<le> n"
        using Suc.prems(1,4) True by (simp add: slice_from_def)
      from Suc.IH[OF _ _ _ this, of q] Suc.prems add_line_true_max_size[OF q] add_line_wrapped_cfg[OF q]
      obtain r where "wrapped_loop n q ol (slice_from line (?t - 1)) emp = Some (Inr r)" by auto
      with True None q Suc.prems(3) show ?thesis by (simp add: Let_def)
    next
      case (Some a)
      obtain position delimiter where a: "a = (position, delimiter)" by (cases a)
      from find_delimiter_Some[OF Some[unfolded a]]
      have pos: "0 < position" "position \<le> len ?ss - len delimiter" by simp_all
      have "len (slice_to line position) \<le> max_page_size p"
        using pos ss cap by (simp add: slice_to_def)
      from add_line_succeeds[OF this] obtain q where
        q: "add_line p (slice_to line position) emp = Inr q" by blast
      let ?rest = "if include_wrapped p then slice_from line position
                   else slice_from line (position + len delimiter)"
      have "length ?rest \<le> n"
        using Suc.prems(4) pos by (auto simp: slice_from_def)
      from Suc.IH[OF _ _ _ this, of q] Suc.prems add_line_true_max_size[OF q] add_line_wrapped_cfg[OF q]
      obtain r where "wrapped_loop n q ol ?rest emp = Some (Inr r)" by auto
      with True Some a q show ?thesis by (simp add: Let_def)
    qed
  qed
qed

lemma find_delimiter_empty_search: "find_delimiter [] ds = None"
  by (induction ds) (simp_all add: Let_def rfind_def)

lemma force_wrap_diverges:
  assumes "true_max_size p = 1" "linesep_len p \<le> 1" "force_wrap p" "len line > 1"
  shows "wrapped_loop n p ol line emp = None"
  using assms
proof (induction n arbitrary: p)
  case 0
  then show ?case by simp
next
  case (Suc n)
  have "len ([]::string) \<le> max_page_size p"
    using true_max_size_le_capacity[OF Suc.prems(2)] Suc.prems(1) by simp
  from add_line_succeeds[OF this] obtain q where q: "add_line p [] False = Inr q" by blast
  from Suc.IH[of q] Suc.prems add_line_true_max_size[OF q] add_line_wrapped_cfg[OF q]
  have "wrapped_loop n q ol line emp = None" by simp
  with Suc.prems q show ?case
    by (simp add: Let_def slice_to_def slice_from_def find_delimiter_empty_search)
qed

lemma wrapped_add_line_long_linesep:
  "wrapped_add_line 1 (WrappedPaginator (Some ''```'') (Some ''```'') 12 [CHR 0x0D, CHR 0x0A]
      [newline, '' ''] True True) ''abcde'' False = Some (Inl (LineExceeds 2))"
  by code_simp

text \<open>
  Claim C4: on a line longer than the usable size with no delimiter before the
  cutoff, \<open>force_wrap=True\<close> makes \<open>add_line\<close> succeed with every piece within
  capacity.  The code does not keep this: \<open>WrappedPaginator.add_line\<close> reserves 2
  characters where the base \<open>add_line\<close> reserves two line separators.  With \<open>max_size = 12\<close>, prefix and suffix
  of three characters, the two-character separator \<open>"\r\n"\<close> and \<open>force_wrap=True\<close>, the
  usable size is 4; the line \<open>"abcde"\<close> is longer and has no delimiter before the cutoff,
  so the loop cuts off its first three characters, which the base \<open>add_line\<close> rejects
  with the size-exceeded error (its capacity is 2).  The call raises instead of
  succeeding, whatever the fuel.
\<close>

theorem C4_force_wrap_raises_size_exceeded:
  "true_max_size (WrappedPaginator (Some ''```'') (Some ''```'') 12 [CHR 0x0D, CHR 0x0A]
      [newline, '' ''] True True) = 4 \<and>
   find_delimiter (slice_to ''abcde'' 3) [newline, '' ''] = None \<and>
   wrapped_add_line (Suc n) (WrappedPaginator (Some ''```'') (Some ''```'') 12 [CHR 0x0D, CHR 0x0A]
      [newline, '' ''] True True) ''abcde'' False = Some (Inl (LineExceeds 2))"
proof -
  have "true_max_size (WrappedPaginator (Some ''```'') (Some ''```'') 12 [CHR 0x0D, CHR 0x0A]
      [newline, '' ''] True True) = 4" by code_simp
  moreover have "find_delimiter (slice_to ''abcde'' 3) [newline, '' ''] = None" by code_simp
  moreover have "wrapped_add_line (Suc n) (WrappedPaginator (Some ''```'') (Some ''```'') 12 [CHR 0x0D, CHR 0x0A]
      [newline, '' ''] True True) ''abcde'' False = Some (Inl (LineExceeds 2))"
    using wrapped_loop_fuel_mono[OF wrapped_add_line_long_linesep[unfolded wrapped_add_line_def], of "Suc n"]
    by (simp add: wrapped_add_line_def)
  ultimately show ?thesis by simp
qed

section \<open>wrap_code: the last statement\<close>

lemma wrap_code_cases:
  assumes B: "B = generic_visit_stmts visit (Pass # user_code)" and ne: "B \<noteq> []"
  shows "\<exists>m. wrap_code visit importer user_code args = Inr m \<and>
           try_block_body m =
             Some (case last B of
                     Expr v \<Rightarrow> (case v of Yield y \<Rightarrow> B | _ \<Rightarrow> butlast B @ [Expr (Yield (Some v))])
                   | _ \<Rightarrow> B)"
  using ne unfolding B
  by (simp add: wrap_code_def CORO_CODE_def Let_def try_block_body_def
      split: stmt.splits expr.splits)

text \<open>
  Claim C5.  Take any parsed snippet.  Let \<open>B\<close> be the body of the template's \<open>try\<close> block once the user's
  statements are appended after the \<open>pass\<close> and the keyword transformer has run, and
  let \<open>B\<close> be non-empty.  Then \<open>wrap_code\<close> returns a module, and the body of that
  \<open>try\<close> block in it is: \<open>B\<close> with its last statement replaced in place by
  \<open>Expr(Yield(v))\<close>, if the last statement of \<open>B\<close> is an expression statement
  \<open>Expr(v)\<close> whose value is not a yield; and \<open>B\<close> itself, if the last statement is
  not an expression statement or is the expression statement of a yield.
\<close>

theorem C5_wrap_code_last_statement:
  assumes "B = generic_visit_stmts visit (Pass # user_code)" and "B \<noteq> []"
  shows "\<exists>m. wrap_code visit importer user_code args = Inr m \<and>
           (\<forall>v. last B = Expr v \<and> (\<forall>y. v \<noteq> Yield y) \<longrightarrow>
                try_block_body m = Some (butlast B @ [Expr (Yield (Some v))])) \<and>
           ((\<forall>v. last B \<noteq> Expr v) \<or> (\<exists>y. last B = Expr (Yield y)) \<longrightarrow>
                try_block_body m = Some B)"
proof -
  from wrap_code_cases[OF assms, of importer args]
  obtain m where m: "wrap_code visit importer user_code args = Inr m"
    and b: "try_block_body m =
             Some (case last B of
                     Expr v \<Rightarrow> (case v of Yield y \<Rightarrow> B | _ \<Rightarrow> butlast B @ [Expr (Yield (Some v))])
                   | _ \<Rightarrow> B)"
    by blast
  have "try_block_body m = Some (butlast B @ [Expr (Yield (Some v))])"
    if "last B = Expr v" "\<forall>y. v \<noteq> Yield y" for v
    using that b by (cases v) simp_all
  moreover have "try_block_body m = Some B" if "\<forall>v. last B \<noteq> Expr v"
    using that b by (cases "last B") simp_all
  moreover have "try_block_body m = Some B" if "last B = Expr (Yield y)" for y
    using that b by simp
  ultimately show ?thesis using m by blast
qed

theorem C5_wrap_code_last_statement_witness:
  "\<exists>m. wrap_code (\<lambda>s. [s]) ''_IMPORTER'' [OtherStmt ''x = 5'', Expr (OtherExpr ''x + 1'')]
          ''_async_executor'' = Inr m \<and>
       try_block_body m =
         Some [Pass, OtherStmt ''x = 5'', Expr (Yield (Some (OtherExpr ''x + 1'')))]"
proof -
  let ?B = "[Pass, OtherStmt ''x = 5'', Expr (OtherExpr ''x + 1'')]"
  have B: "?B = generic_visit_stmts (\<lambda>s. [s]) (Pass # [OtherStmt ''x = 5'', Expr (OtherExpr ''x + 1'')])"
    by (simp add: generic_visit_stmts_def)
  have ne: "?B \<noteq> []" by simp
  have l: "last ?B = Expr (OtherExpr ''x + 1'') \<and> (\<forall>y. OtherExpr ''x + 1'' \<noteq> Yield y)" by simp
  from C5_wrap_code_last_statement[OF B ne, of "''_IMPORTER''" "''_async_executor''"]
  obtain m where m: "wrap_code (\<lambda>s. [s]) ''_IMPORTER'' [OtherStmt ''x = 5'', Expr (OtherExpr ''x + 1'')]
          ''_async_executor'' = Inr m"
    and r: "\<forall>v. last ?B = Expr v \<and> (\<forall>y. v \<noteq> Yield y) \<longrightarrow>
                try_block_body m = Some (butlast ?B @ [Expr (Yield (Some v))])"
    by blast
  from r l have "try_block_body m = Some (butlast ?B @ [Expr (Yield (Some (OtherExpr ''x + 1'')))])"
    by blast
  with m show ?thesis by auto
qed

section \<open>PaginatorInterface: reads leave the paginator alone\<close>

lemma frame_refl: "frame st st"
  by (simp add: frame_def list_all_iff)

lemma frame_trans: "frame a b \<Longrightarrow> frame b c \<Longrightarrow> frame a c"
  by (auto simp: frame_def list_all_iff)

lemma frame_store_pages: "frame st (snd (store_pages self st))"
  by (auto simp: frame_def store_pages_def new_list_def list_append_def Let_def list_all_iff
      split: prod.splits)

lemma store_pages_value:
  assumes "obj_pages (paginator_objs st (obj_paginator self)) < limit st"
    and "obj_current_page (paginator_objs st (obj_paginator self)) < limit st"
  shows "list_objs (snd (store_pages self st)) (fst (store_pages self st)) =
           interface_pages (new_interface (paginator_at st (obj_paginator self)) own tmo del)"
  using assms
  by (auto simp: store_pages_def new_list_def list_append_def Let_def interface_pages_def
      new_interface_def paginator_at_def split: prod.splits)

lemma frame_store_page_count: "frame st (snd (store_page_count self st))"
  using frame_store_pages[of st self]
  by (cases "store_pages self st") (simp add: store_page_count_def)

lemma frame_store_display_page:
  "frame st (snd (snd (store_display_page self st))) \<and>
   obj_paginator (fst (snd (store_display_page self st))) = obj_paginator self"
  using frame_store_page_count[of st self]
  by (cases "store_page_count self st") (simp add: store_display_page_def Let_def)

lemma frame_store_send_kwargs:
  "frame st (snd (snd (store_send_kwargs self st))) \<and>
   obj_paginator (fst (snd (store_send_kwargs self st))) = obj_paginator self"
proof -
  obtain dp self1 st1 where d: "store_display_page self st = (dp, self1, st1)"
    by (cases "store_display_page self st") auto
  obtain pc st2 where c: "store_page_count self1 st1 = (pc, st2)"
    by (cases "store_page_count self1 st1") auto
  obtain a st3 where p: "store_pages self1 st2 = (a, st3)"
    by (cases "store_pages self1 st2") auto
  have "frame st st1" "obj_paginator self1 = obj_paginator self"
    using frame_store_display_page[of st self] d by simp_all
  moreover have "frame st1 st2" using frame_store_page_count[of st1 self1] c by simp
  moreover have "frame st2 st3" using frame_store_pages[of st2 self1] p by simp
  ultimately have "frame st st3" by (blast intro: frame_trans)
  then show ?thesis
    using d c p \<open>obj_paginator self1 = obj_paginator self\<close>
    by (simp add: store_send_kwargs_def Let_def split: sum.splits)
qed

lemma frame_store_read:
  "frame st (snd (store_read r self st)) \<and>
   obj_paginator (fst (store_read r self st)) = obj_paginator self"
  using frame_store_pages[of st self] frame_store_page_count[of st self]
    frame_store_display_page[of st self] frame_store_send_kwargs[of st self]
  by (cases r) simp_all

lemma frame_store_reads:
  "frame st (snd (store_reads rs self st)) \<and>
   obj_paginator (fst (store_reads rs self st)) = obj_paginator self"
proof (induction rs arbitrary: self st)
  case Nil
  show ?case by (simp add: frame_refl)
next
  case (Cons r rs)
  obtain self1 st1 where r: "store_read r self st = (self1, st1)" by (cases "store_read r self st")
  with frame_store_read[of st r self] have "frame st st1" "obj_paginator self1 = obj_paginator self"
    by simp_all
  with Cons[of st1 self1] r show ?case by (auto intro: frame_trans)
qed

lemma frame_paginator_at:
  assumes "frame st st'"
    and "obj_pages (paginator_objs st a) < limit st"
    and "obj_current_page (paginator_objs st a) < limit st"
  shows "paginator_at st' a = paginator_at st a"
  using assms by (simp add: frame_def paginator_at_def list_all_iff)

lemma pages_closes_open_buffer:
  assumes "len (priv_current_page p) > (if prefix p = None then 0 else 1)"
  shows "priv_pages (snd (pages p)) \<noteq> priv_pages p"
  using assms by (simp add: pages_def close_page_def Let_def split: option.splits)

text \<open>
  Claim C10.  Take an interface whose paginator object points to lists in use.  After
  any sequence of reads of \<open>pages\<close>, \<open>page_count\<close>, \<open>display_page\<close> and
  \<open>send_kwargs\<close>, the paginator object, the list of closed pages and the open
  buffer are what they were (so is the paginator they stand for, and its count), and
  the interface still points to the same paginator; the list that \<open>pages\<close> returns
  is a new one that holds \<open>interface_pages\<close> of that paginator.  \<open>Paginator.pages\<close>
  on the same paginator, in contrast, changes the list of closed pages whenever the
  open buffer holds more than the prefix.
\<close>

theorem C10_interface_reads_leave_paginator:
  assumes "obj_pages (paginator_objs st (obj_paginator self)) < limit st"
    and "obj_current_page (paginator_objs st (obj_paginator self)) < limit st"
  shows "paginator_at (snd (store_reads rs self st)) (obj_paginator self)
           = paginator_at st (obj_paginator self) \<and>
         paginator_objs (snd (store_reads rs self st)) = paginator_objs st \<and>
         obj_paginator (fst (store_reads rs self st)) = obj_paginator self \<and>
         list_objs (snd (store_pages self st)) (fst (store_pages self st))
           = interface_pages (new_interface (paginator_at st (obj_paginator self)) own tmo del) \<and>
         (len (priv_current_page (paginator_at st (obj_paginator self)))
            > (if prefix (paginator_at st (obj_paginator self)) = None then 0 else 1) \<longrightarrow>
          priv_pages (snd (pages (paginator_at st (obj_paginator self))))
            \<noteq> priv_pages (paginator_at st (obj_paginator self)))"
proof -
  have f: "frame st (snd (store_reads rs self st))"
    and o: "obj_paginator (fst (store_reads rs self st)) = obj_paginator self"
    using frame_store_reads[of st rs self] by simp_all
  from frame_paginator_at[OF f assms]
  have "paginator_at (snd (store_reads rs self st)) (obj_paginator self)
           = paginator_at st (obj_paginator self)" .
  moreover have "paginator_objs (snd (store_reads rs self st)) = paginator_objs st"
    using f by (simp add: frame_def)
  ultimately show ?thesis
    using o store_pages_value[OF assms] pages_closes_open_buffer by blast
qed

theorem C10_interface_reads_leave_paginator_witness:
  "paginator_at
     (snd (store_reads [ReadSendKwargs, ReadInterfacePages, ReadDisplayPage, ReadPageCount]
             \<lparr>obj_display_page = 5, obj_paginator = 0\<rparr> example_store)) 0
     = paginator_at example_store 0 \<and>
   priv_pages (snd (pages (paginator_at example_store 0)))
     \<noteq> priv_pages (paginator_at example_store 0)"
proof -
  let ?self = "\<lparr>obj_display_page = 5, obj_paginator = 0\<rparr>"
  have h1: "obj_pages (paginator_objs example_store (obj_paginator ?self)) < limit example_store"
    by (simp add: example_store_def)
  have h2: "obj_current_page (paginator_objs example_store (obj_paginator ?self)) < limit example_store"
    by (simp add: example_store_def)
  have h3: "len (priv_current_page (paginator_at example_store (obj_paginator ?self)))
            > (if prefix (paginator_at example_store (obj_paginator ?self)) = None then 0 else 1)"
    by (simp add: example_store_def paginator_at_def)
  show ?thesis
    using h3 C10_interface_reads_leave_paginator[OF h1 h2,
        of "[ReadSendKwargs, ReadInterfacePages, ReadDisplayPage, ReadPageCount]"]
    by simp
qed

end
